theory Spec2Isabelle
  imports Complex_Main "HOL-Library.Sublist" "HOL-Library.AList"
begin

section \<open>The arm tracker's WebSocket fan-out (tracking/mediapipe-arm-tracking.py)\<close>

text \<open>
  \<^verbatim>\<open>ArmTracker\<close> owns a set of connected WebSocket clients and a \<^verbatim>\<open>queue.Queue\<close>
  of messages. The camera thread puts messages on the queue; the event loop runs one
  \<^verbatim>\<open>handler\<close> coroutine per connection and one \<^verbatim>\<open>broadcast_messages\<close> coroutine.
  The model passes the state explicitly. Besides the two fields of \<^verbatim>\<open>self\<close> it holds
  the network as the clients see it: which connections have been closed by their peer
  (a send on them raises \<^verbatim>\<open>ConnectionClosed\<close>) and the frames each connection has
  been sent, in order.
\<close>

subsection \<open>Data\<close>

type_synonym ws = nat

datatype exn = ConnectionClosed | KeyError | Empty | IndexError

text \<open>What goes over the wire: the welcome record, or \<^verbatim>\<open>json.dumps(message)\<close>.\<close>

datatype 'm frame = Status_connected | Json 'm

text \<open>
  \<^verbatim>\<open>queue.Queue(maxsize=0)\<close> of the standard library: a FIFO whose \<^verbatim>\<open>put\<close> waits
  while \<^verbatim>\<open>maxsize > 0\<close> and the queue holds \<^verbatim>\<open>maxsize\<close> items, and whose
  \<^verbatim>\<open>get_nowait\<close> raises \<^verbatim>\<open>Empty\<close> on an empty queue.
\<close>

record 'm py_queue =
  maxsize :: int
  items :: "'m list"

datatype 'a blocking = Blocks | Returns 'a

definition Queue :: "'m py_queue" where
  "Queue = \<lparr>maxsize = 0, items = []\<rparr>"

definition empty_q :: "'m py_queue \<Rightarrow> bool" where
  "empty_q q = (items q = [])"

definition put :: "'m py_queue \<Rightarrow> 'm \<Rightarrow> 'm py_queue blocking" where
  "put q item =
     (if 0 < maxsize q \<and> maxsize q \<le> int (length (items q)) then Blocks
      else Returns (q\<lparr>items := items q @ [item]\<rparr>))"

definition get_nowait :: "'m py_queue \<Rightarrow> exn + ('m \<times> 'm py_queue)" where
  "get_nowait q =
     (case items q of
        [] \<Rightarrow> Inl Empty
      | item # rest \<Rightarrow> Inr (item, q\<lparr>items := rest\<rparr>))"

record 'm system =
  connected_clients :: "ws set"
  message_queue :: "'m py_queue"
  closed :: "ws set"
  inbox :: "ws \<Rightarrow> 'm frame list"

text \<open>\<^verbatim>\<open>__init__\<close>: no client, an empty unbounded queue; nothing closed, nothing sent.\<close>

definition ArmTracker_init :: "'m system" where
  "ArmTracker_init =
     \<lparr>connected_clients = {}, message_queue = Queue, closed = {}, inbox = (\<lambda>_. [])\<rparr>"

subsection \<open>Python's set operations\<close>

text \<open>\<^verbatim>\<open>set.remove(x)\<close> raises \<^verbatim>\<open>KeyError\<close> when \<^verbatim>\<open>x\<close> is not a member.\<close>

definition set_add :: "ws \<Rightarrow> ws set \<Rightarrow> ws set" where
  "set_add w cs = insert w cs"

definition set_remove :: "ws \<Rightarrow> ws set \<Rightarrow> exn + ws set" where
  "set_remove w cs = (if w \<in> cs then Inr (cs - {w}) else Inl KeyError)"

definition client_count :: "'m system \<Rightarrow> nat" where
  "client_count s = card (connected_clients s)"

subsection \<open>Sending\<close>

text \<open>\<^verbatim>\<open>websocket.send(data)\<close>: raises on a closed connection, else delivers one frame.\<close>

definition send :: "ws \<Rightarrow> 'm frame \<Rightarrow> 'm system \<Rightarrow> exn + 'm system" where
  "send w f s =
     (if w \<in> closed s then Inl ConnectionClosed
      else Inr (s\<lparr>inbox := (inbox s)(w := inbox s w @ [f])\<rparr>))"

text \<open>
  \<^verbatim>\<open>await asyncio.gather(*tasks)\<close> with the default \<^verbatim>\<open>return_exceptions=False\<close>, over a
  list of sends: every send is run; the first exception raised is propagated to the
  caller, and the other sends are not cancelled.
\<close>

fun gather :: "ws list \<Rightarrow> 'm frame \<Rightarrow> 'm system \<Rightarrow> exn option \<times> 'm system" where
  "gather [] f s = (None, s)"
| "gather (w # ws) f s =
     (case send w f s of
        Inl e \<Rightarrow> (Some e, snd (gather ws f s))
      | Inr s' \<Rightarrow> gather ws f s')"

text \<open>
  The same over the set \<^verbatim>\<open>self.connected_clients\<close>, whose iteration order Python does
  not fix. Sends to different connections touch different inboxes, so the outcome does
  not depend on the order (lemma \<open>gather_set\<close> below).
\<close>

definition gather_send :: "ws set \<Rightarrow> 'm frame \<Rightarrow> 'm system \<Rightarrow> exn option \<times> 'm system" where
  "gather_send targets f s =
     (if targets \<inter> closed s = {} then None else Some ConnectionClosed,
      s\<lparr>inbox := (\<lambda>w. if w \<in> targets \<and> w \<notin> closed s then inbox s w @ [f] else inbox s w)\<rparr>)"

subsection \<open>The connection handler (lines 42-53)\<close>

text \<open>Line 44: the handle is added to the set first.\<close>

definition handler_register :: "ws \<Rightarrow> 'm system \<Rightarrow> 'm system" where
  "handler_register w s = s\<lparr>connected_clients := set_add w (connected_clients s)\<rparr>"

text \<open>Line 48: the welcome message.\<close>

definition handler_welcome :: "ws \<Rightarrow> 'm system \<Rightarrow> exn + 'm system" where
  "handler_welcome w s = send w Status_connected s"

text \<open>Line 52, the \<^verbatim>\<open>finally\<close> clause.\<close>

definition handler_finally :: "ws \<Rightarrow> 'm system \<Rightarrow> exn + 'm system" where
  "handler_finally w s =
     (case set_remove w (connected_clients s) of
        Inl e \<Rightarrow> Inl e
      | Inr cs \<Rightarrow> Inr (s\<lparr>connected_clients := cs\<rparr>))"


subsection \<open>The producer side (lines 85-87)\<close>

definition queue_message :: "'m \<Rightarrow> 'm system \<Rightarrow> 'm system blocking" where
  "queue_message message s =
     (case put (message_queue s) message of
        Blocks \<Rightarrow> Blocks
      | Returns q \<Rightarrow> Returns (s\<lparr>message_queue := q\<rparr>))"

subsection \<open>The broadcaster (lines 55-69)\<close>

text \<open>
  Lines 63-67, one round of the inner \<^verbatim>\<open>while\<close>: take the head of the queue and, when
  the set of clients is not empty, send it to all of them.
\<close>

definition broadcast_one :: "'m system \<Rightarrow> exn option \<times> 'm system" where
  "broadcast_one s =
     (case get_nowait (message_queue s) of
        Inl e \<Rightarrow> (Some e, s)
      | Inr (message, q) \<Rightarrow>
          (let s1 = s\<lparr>message_queue := q\<rparr> in
           if connected_clients s1 \<noteq> {}
           then gather_send (connected_clients s1) (Json message) s1
           else (None, s1)))"

text \<open>
  Lines 61-67, the body of the \<^verbatim>\<open>try\<close>: the inner loop runs until the queue is empty or
  a round raises. The exception, if any, is returned with the state reached.
\<close>

function broadcast_try :: "'m system \<Rightarrow> exn option \<times> 'm system" where
  "broadcast_try s =
     (if empty_q (message_queue s) then (None, s)
      else (let r = broadcast_one s in
            if fst r = None then broadcast_try (snd r) else r))"
  by pat_completeness auto
termination
  by (relation "measure (\<lambda>s. length (items (message_queue s)))")
     (auto simp: broadcast_one_def get_nowait_def gather_send_def empty_q_def Let_def
           split: list.splits if_splits)

declare broadcast_try.simps [simp del]

text \<open>
  Lines 61-69, one pass of the outer loop after its sleep: \<^verbatim>\<open>except Exception\<close> catches
  whatever the body raised and prints it; the outer \<^verbatim>\<open>while True\<close> goes on to its next
  pass.
\<close>

definition broadcast_tick :: "'m system \<Rightarrow> 'm system" where
  "broadcast_tick s = snd (broadcast_try s)"

subsection \<open>Interleavings\<close>

text \<open>
  The coroutines and the camera thread interleave. An event is one atomic piece of the
  source: a handler's line 44, its line 48, its line 52; the peer closing a connection;
  one \<^verbatim>\<open>queue_message\<close> call; one round of the broadcaster's inner loop (a pass of the
  broadcaster is a sequence of rounds, lemma \<open>broadcast_tick_rounds\<close>). An exception
  raised by a step ends that step and leaves the state as the step left it.
\<close>

datatype 'm event =
    Register ws
  | Welcome ws
  | Close ws
  | Finally ws
  | Enqueue 'm
  | Round

fun step :: "'m event \<Rightarrow> 'm system \<Rightarrow> 'm system" where
  "step (Register w) s = handler_register w s"
| "step (Welcome w) s = (case handler_welcome w s of Inl e \<Rightarrow> s | Inr s' \<Rightarrow> s')"
| "step (Close w) s = s\<lparr>closed := insert w (closed s)\<rparr>"
| "step (Finally w) s = (case handler_finally w s of Inl e \<Rightarrow> s | Inr s' \<Rightarrow> s')"
| "step (Enqueue m) s = (case queue_message m s of Blocks \<Rightarrow> s | Returns s' \<Rightarrow> s')"
| "step Round s = (if empty_q (message_queue s) then s else snd (broadcast_one s))"

definition run :: "'m event list \<Rightarrow> 'm system \<Rightarrow> 'm system" where
  "run evs s = fold step evs s"

text \<open>The messages put on the queue by a sequence of events, and the samples in an inbox.\<close>

definition enqueued :: "'m event list \<Rightarrow> 'm list" where
  "enqueued evs = concat (map (\<lambda>e. case e of Enqueue m \<Rightarrow> [m] | _ \<Rightarrow> []) evs)"

definition samples_of :: "'m frame list \<Rightarrow> 'm list" where
  "samples_of fs = concat (map (\<lambda>f. case f of Json m \<Rightarrow> [m] | Status_connected \<Rightarrow> []) fs)"

text \<open>
  The messages taken off the queue by the broadcaster's rounds in a sequence of events,
  in the order they are taken.
\<close>

fun drained :: "'m event list \<Rightarrow> 'm system \<Rightarrow> 'm list" where
  "drained [] s = []"
| "drained (Round # evs) s = take 1 (items (message_queue s)) @ drained evs (step Round s)"
| "drained (e # evs) s = drained evs (step e s)"

text \<open>The events that change the set of clients: a handler's lines 44 and 52.\<close>

definition registry_events :: "'m event list \<Rightarrow> 'm event list" where
  "registry_events evs =
     filter (\<lambda>e. case e of Register w \<Rightarrow> True | Finally w \<Rightarrow> True | _ \<Rightarrow> False) evs"

subsection \<open>The arm data of a pose result (lines 172-227)\<close>










section \<open>Basic facts\<close>

lemma set_remove_member: "w \<in> cs \<Longrightarrow> set_remove w cs = Inr (cs - {w})"
  by (simp add: set_remove_def)

lemma set_remove_absent: "w \<notin> cs \<Longrightarrow> set_remove w cs = Inl KeyError"
  by (simp add: set_remove_def)

lemma broadcast_one_Cons:
  "items (message_queue s) = m # q \<Longrightarrow>
   broadcast_one s =
     (if connected_clients s \<noteq> {}
      then gather_send (connected_clients s) (Json m)
             (s\<lparr>message_queue := (message_queue s)\<lparr>items := q\<rparr>\<rparr>)
      else (None, s\<lparr>message_queue := (message_queue s)\<lparr>items := q\<rparr>\<rparr>))"
  by (simp add: broadcast_one_def get_nowait_def)

lemma gather_send_fields [simp]:
  "connected_clients (snd (gather_send T f s)) = connected_clients s"
  "message_queue (snd (gather_send T f s)) = message_queue s"
  "closed (snd (gather_send T f s)) = closed s"
  by (simp_all add: gather_send_def)

lemma broadcast_one_fields [simp]:
  "connected_clients (snd (broadcast_one s)) = connected_clients s"
  "closed (snd (broadcast_one s)) = closed s"
  "maxsize (message_queue (snd (broadcast_one s))) = maxsize (message_queue s)"
  by (simp_all add: broadcast_one_def get_nowait_def Let_def split: list.splits)

lemma broadcast_one_fst:
  "items (message_queue s) \<noteq> [] \<Longrightarrow>
   fst (broadcast_one s) =
     (if connected_clients s \<inter> closed s = {} then None else Some ConnectionClosed)"
  by (cases "items (message_queue s)")
     (simp_all add: broadcast_one_Cons gather_send_def)

lemma broadcast_one_items:
  "items (message_queue (snd (broadcast_one s))) = tl (items (message_queue s))"
  by (cases "items (message_queue s)")
     (simp_all add: gather_send_def broadcast_one_def get_nowait_def Let_def)

lemma broadcast_one_inbox:
  "items (message_queue s) = m # q \<Longrightarrow>
   inbox (snd (broadcast_one s)) c =
     (if c \<in> connected_clients s \<and> c \<notin> closed s then inbox s c @ [Json m] else inbox s c)"
  by (simp add: broadcast_one_Cons gather_send_def)

lemma broadcast_try_empty:
  "items (message_queue s) = [] \<Longrightarrow> broadcast_try s = (None, s)"
  by (subst broadcast_try.simps) (simp add: empty_q_def)

lemma broadcast_try_healthy_step:
  "items (message_queue s) \<noteq> [] \<Longrightarrow> connected_clients s \<inter> closed s = {} \<Longrightarrow>
   broadcast_try s = broadcast_try (snd (broadcast_one s))"
  by (subst broadcast_try.simps) (simp add: empty_q_def broadcast_one_fst Let_def)

lemma broadcast_try_failing:
  "items (message_queue s) \<noteq> [] \<Longrightarrow> connected_clients s \<inter> closed s \<noteq> {} \<Longrightarrow>
   broadcast_try s = broadcast_one s"
  by (subst broadcast_try.simps) (simp add: empty_q_def broadcast_one_fst Let_def)

lemma broadcast_try_cases:
  "broadcast_try s =
     (if items (message_queue s) = [] then (None, s)
      else if connected_clients s \<inter> closed s = {} then broadcast_try (snd (broadcast_one s))
      else broadcast_one s)"
  by (simp add: broadcast_try_empty broadcast_try_healthy_step broadcast_try_failing)

lemma broadcast_try_fields [simp]:
  "connected_clients (snd (broadcast_try s)) = connected_clients s"
  "closed (snd (broadcast_try s)) = closed s"
  "maxsize (message_queue (snd (broadcast_try s))) = maxsize (message_queue s)"
  by (induction s rule: broadcast_try.induct; subst broadcast_try.simps;
      simp add: Let_def)+

lemma broadcast_try_healthy:
  "connected_clients s \<inter> closed s = {} \<Longrightarrow>
   fst (broadcast_try s) = None \<and>
   items (message_queue (snd (broadcast_try s))) = [] \<and>
   inbox (snd (broadcast_try s)) c =
     (if c \<in> connected_clients s then inbox s c @ map Json (items (message_queue s))
      else inbox s c)"
proof (induction "items (message_queue s)" arbitrary: s)
  case Nil
  then show ?case by (simp add: broadcast_try_empty)
next
  case (Cons m q)
  let ?s1 = "snd (broadcast_one s)"
  have items: "items (message_queue s) = m # q"
    using Cons.hyps(2) by simp
  have step: "broadcast_try s = broadcast_try ?s1"
    using items Cons.prems by (simp add: broadcast_try_healthy_step)
  have q: "q = items (message_queue ?s1)"
    using items by (simp add: broadcast_one_items)
  have healthy: "connected_clients ?s1 \<inter> closed ?s1 = {}"
    using Cons.prems by simp
  from Cons.hyps(1) [OF q healthy] show ?case
    using items Cons.prems
    by (auto simp: step broadcast_one_items broadcast_one_inbox)
qed

lemma step_connected_clients:
  "connected_clients (step e s) =
     (case e of
        Register w \<Rightarrow> insert w (connected_clients s)
      | Finally w \<Rightarrow> connected_clients s - {w}
      | _ \<Rightarrow> connected_clients s)"
  by (cases e)
     (auto simp: handler_register_def set_add_def handler_welcome_def send_def
        handler_finally_def set_remove_def queue_message_def put_def)

lemma step_closed:
  "closed (step e s) = (case e of Close w \<Rightarrow> insert w (closed s) | _ \<Rightarrow> closed s)"
  by (cases e)
     (auto simp: handler_register_def handler_welcome_def send_def
        handler_finally_def set_remove_def queue_message_def put_def)

lemma step_maxsize [simp]:
  "maxsize (message_queue (step e s)) = maxsize (message_queue s)"
  by (cases e)
     (auto simp: handler_register_def handler_welcome_def send_def
        handler_finally_def set_remove_def queue_message_def put_def)

lemma run_Nil [simp]: "run [] s = s"
  by (simp add: run_def)

lemma run_Cons [simp]: "run (e # evs) s = run evs (step e s)"
  by (simp add: run_def)

lemma run_append: "run (evs @ evs') s = run evs' (run evs s)"
  by (simp add: run_def)

lemma run_maxsize [simp]:
  "maxsize (message_queue (run evs s)) = maxsize (message_queue s)"
  by (induction evs arbitrary: s) simp_all

lemma step_Round_eq:
  "items (message_queue s) \<noteq> [] \<Longrightarrow> step Round s = snd (broadcast_one s)"
  by (simp add: empty_q_def)

lemma step_items:
  "maxsize (message_queue s) = 0 \<Longrightarrow>
   items (message_queue (step e s)) =
     (case e of
        Enqueue m \<Rightarrow> items (message_queue s) @ [m]
      | Round \<Rightarrow> tl (items (message_queue s))
      | _ \<Rightarrow> items (message_queue s))"
  by (cases e)
     (auto simp: handler_register_def handler_welcome_def send_def handler_finally_def
        set_remove_def queue_message_def put_def empty_q_def broadcast_one_items)

lemma step_inbox:
  "inbox (step e s) c =
     inbox s c @
     (case e of
        Welcome w \<Rightarrow> if w = c \<and> c \<notin> closed s then [Status_connected] else []
      | Round \<Rightarrow>
          if c \<in> connected_clients s \<and> c \<notin> closed s
          then map Json (take 1 (items (message_queue s))) else []
      | _ \<Rightarrow> [])"
proof (cases e)
  case Round
  then show ?thesis
    by (cases "items (message_queue s)")
       (simp_all add: empty_q_def broadcast_one_inbox)
qed (auto simp: handler_register_def handler_welcome_def send_def handler_finally_def
        set_remove_def queue_message_def put_def split: blocking.splits)

lemma samples_of_simps [simp]:
  "samples_of [] = []"
  "samples_of (Status_connected # fs) = samples_of fs"
  "samples_of (Json m # fs) = m # samples_of fs"
  "samples_of (fs @ gs) = samples_of fs @ samples_of gs"
  "samples_of (map Json ms) = ms"
  by (simp_all add: samples_of_def) (induction ms, simp_all)

lemma enqueued_simps [simp]:
  "enqueued [] = []"
  "enqueued (Enqueue m # evs) = m # enqueued evs"
  "enqueued (Register w # evs) = enqueued evs"
  "enqueued (Welcome w # evs) = enqueued evs"
  "enqueued (Close w # evs) = enqueued evs"
  "enqueued (Finally w # evs) = enqueued evs"
  "enqueued (Round # evs) = enqueued evs"
  "enqueued (evs @ evs') = enqueued evs @ enqueued evs'"
  by (simp_all add: enqueued_def)

lemma drained_Cons:
  "drained (e # evs) s =
     (case e of Round \<Rightarrow> take 1 (items (message_queue s)) | _ \<Rightarrow> []) @
     drained evs (step e s)"
  by (cases e) simp_all

lemma take1_tl: "take (Suc 0) xs @ tl xs = xs"
  by (cases xs) simp_all

lemma drained_queue:
  "maxsize (message_queue s) = 0 \<Longrightarrow>
   drained evs s @ items (message_queue (run evs s)) = items (message_queue s) @ enqueued evs"
proof (induction evs arbitrary: s)
  case Nil
  then show ?case by simp
next
  case (Cons e evs)
  have "maxsize (message_queue (step e s)) = 0"
    using Cons.prems by simp
  from Cons.IH [OF this] show ?case
    using Cons.prems
    by (cases e)
       (simp_all del: step.simps drained.simps add: drained_Cons step_items take1_tl)
qed

lemma step_samples:
  "samples_of (inbox (step e s) c) =
     samples_of (inbox s c) @
     (case e of
        Round \<Rightarrow>
          if c \<in> connected_clients s \<and> c \<notin> closed s
          then take 1 (items (message_queue s)) else []
      | _ \<Rightarrow> [])"
  by (cases e) (simp_all del: step.simps add: step_inbox)

lemma run_samples_subseq:
  "\<exists>ys. samples_of (inbox (run evs s) c) = samples_of (inbox s c) @ ys \<and>
        subseq ys (drained evs s)"
proof (induction evs arbitrary: s)
  case Nil
  then show ?case by simp
next
  case (Cons e evs)
  obtain ys where ys: "samples_of (inbox (run evs (step e s)) c) =
      samples_of (inbox (step e s) c) @ ys" "subseq ys (drained evs (step e s))"
    using Cons.IH by blast
  show ?case
  proof (cases "e = Round \<and> c \<in> connected_clients s \<and> c \<notin> closed s")
    case True
    then have "samples_of (inbox (run (e # evs) s) c) =
        samples_of (inbox s c) @ (take 1 (items (message_queue s)) @ ys)"
      using ys(1) by (simp del: step.simps add: step_samples)
    moreover have "subseq (take 1 (items (message_queue s)) @ ys) (drained (e # evs) s)"
      using True ys(2) by (simp del: step.simps add: drained_Cons list_emb_append_mono)
    ultimately show ?thesis by blast
  next
    case False
    then have "samples_of (inbox (run (e # evs) s) c) = samples_of (inbox s c) @ ys"
      using False ys(1)
      by (cases e) (auto simp del: step.simps simp add: step_samples)
    moreover have "subseq ys (drained (e # evs) s)"
      using ys(2) by (simp del: step.simps add: drained_Cons list_emb_append2)
    ultimately show ?thesis by blast
  qed
qed

lemma run_samples_connected:
  "c \<in> connected_clients s \<Longrightarrow> c \<notin> closed s \<Longrightarrow>
   Finally c \<notin> set evs \<Longrightarrow> Close c \<notin> set evs \<Longrightarrow>
   samples_of (inbox (run evs s) c) = samples_of (inbox s c) @ drained evs s"
proof (induction evs arbitrary: s)
  case Nil
  then show ?case by simp
next
  case (Cons e evs)
  have "c \<in> connected_clients (step e s)" "c \<notin> closed (step e s)"
    using Cons.prems
    by (auto simp del: step.simps simp add: step_connected_clients step_closed
          split: event.splits)
  with Cons.IH [of "step e s"] Cons.prems
  have "samples_of (inbox (run evs (step e s)) c) =
      samples_of (inbox (step e s) c) @ drained evs (step e s)"
    by simp
  then show ?case
    using Cons.prems(1,2)
    by (cases e) (simp_all del: step.simps add: step_samples drained_Cons)
qed

lemma run_samples_unregistered:
  "c \<notin> connected_clients s \<Longrightarrow> Register c \<notin> set evs \<Longrightarrow>
   samples_of (inbox (run evs s) c) = samples_of (inbox s c)"
proof (induction evs arbitrary: s)
  case Nil
  then show ?case by simp
next
  case (Cons e evs)
  have "c \<notin> connected_clients (step e s)"
    using Cons.prems
    by (auto simp del: step.simps simp add: step_connected_clients split: event.splits)
  with Cons.IH [of "step e s"] Cons.prems
  have "samples_of (inbox (run evs (step e s)) c) = samples_of (inbox (step e s) c)"
    by simp
  then show ?case
    using Cons.prems(1)
    by (cases e) (simp_all del: step.simps add: step_samples)
qed

lemma gather_fields:
  "connected_clients (snd (gather ws f s)) = connected_clients s"
  "message_queue (snd (gather ws f s)) = message_queue s"
  "closed (snd (gather ws f s)) = closed s"
  by (induction ws arbitrary: s; simp add: send_def)+

lemma gather_inbox:
  "distinct ws \<Longrightarrow>
   inbox (snd (gather ws f s)) c =
     (if c \<in> set ws \<and> c \<notin> closed s then inbox s c @ [f] else inbox s c)"
  by (induction ws arbitrary: s) (auto simp: send_def)

lemma gather_fst:
  "fst (gather ws f s) = (if set ws \<inter> closed s = {} then None else Some ConnectionClosed)"
  by (induction ws arbitrary: s) (auto simp: send_def)

lemma gather_set:
  assumes "distinct ws"
  shows "gather ws f s = gather_send (set ws) f s"
proof (rule prod_eqI)
  show "fst (gather ws f s) = fst (gather_send (set ws) f s)"
    by (simp add: gather_fst gather_send_def)
  have "inbox (snd (gather ws f s)) = inbox (snd (gather_send (set ws) f s))"
    using assms by (auto simp: gather_inbox gather_send_def fun_eq_iff)
  then show "snd (gather ws f s) = snd (gather_send (set ws) f s)"
    by (simp add: gather_fields)
qed

lemma broadcast_try_fst:
  "fst (broadcast_try s) =
     (if items (message_queue s) = [] \<or> connected_clients s \<inter> closed s = {} then None
      else Some ConnectionClosed)"
  by (simp add: broadcast_try_empty broadcast_try_healthy broadcast_try_failing
        broadcast_one_fst)

lemma broadcast_tick_fields [simp]:
  "connected_clients (broadcast_tick s) = connected_clients s"
  "closed (broadcast_tick s) = closed s"
  "maxsize (message_queue (broadcast_tick s)) = maxsize (message_queue s)"
  by (simp_all add: broadcast_tick_def)

lemma broadcast_tick_items:
  "items (message_queue (broadcast_tick s)) =
     (if connected_clients s \<inter> closed s = {} then [] else tl (items (message_queue s)))"
  by (cases "items (message_queue s) = []")
     (simp_all add: broadcast_tick_def broadcast_try_empty broadcast_try_healthy
        broadcast_try_failing broadcast_one_items)

lemma broadcast_tick_inbox:
  "inbox (broadcast_tick s) c =
     inbox s c @
     (if c \<in> connected_clients s \<and> c \<notin> closed s
      then map Json (if connected_clients s \<inter> closed s = {} then items (message_queue s)
                     else take 1 (items (message_queue s)))
      else [])"
proof (cases "items (message_queue s)")
  case Nil
  then show ?thesis by (simp add: broadcast_tick_def broadcast_try_empty)
next
  case (Cons m q)
  then show ?thesis
    by (cases "connected_clients s \<inter> closed s = {}")
       (auto simp: broadcast_tick_def broadcast_try_healthy broadcast_try_failing
          broadcast_one_inbox)
qed

lemma broadcast_tick_rounds:
  "broadcast_tick s =
     run (replicate (if connected_clients s \<inter> closed s = {}
                     then length (items (message_queue s))
                     else min 1 (length (items (message_queue s)))) Round) s"
proof (induction "items (message_queue s)" arbitrary: s)
  case Nil
  then show ?case by (simp add: broadcast_tick_def broadcast_try_empty)
next
  case (Cons m q)
  have items: "items (message_queue s) = m # q"
    using Cons.hyps(2) by simp
  show ?case
  proof (cases "connected_clients s \<inter> closed s = {}")
    case True
    have q: "q = items (message_queue (snd (broadcast_one s)))"
      using items by (simp add: broadcast_one_items)
    have "broadcast_tick s = broadcast_tick (snd (broadcast_one s))"
      using items True by (simp add: broadcast_tick_def broadcast_try_healthy_step)
    then show ?thesis
      using Cons.hyps(1) [OF q] True items q by (simp add: empty_q_def)
  next
    case False
    then show ?thesis
      using items by (simp add: broadcast_tick_def broadcast_try_failing empty_q_def)
  qed
qed

lemma ticks_fields [simp]:
  "connected_clients ((broadcast_tick ^^ n) s) = connected_clients s"
  "closed ((broadcast_tick ^^ n) s) = closed s"
  by (induction n) simp_all

lemma ticks_items:
  "items (message_queue ((broadcast_tick ^^ n) s)) =
     (if connected_clients s \<inter> closed s = {} \<and> 0 < n then []
      else drop n (items (message_queue s)))"
  by (induction n) (auto simp: broadcast_tick_items tl_drop drop_Suc)

lemma ticks_inbox:
  "c \<in> connected_clients s \<Longrightarrow> c \<notin> closed s \<Longrightarrow>
   inbox ((broadcast_tick ^^ n) s) c =
     inbox s c @
     map Json (if connected_clients s \<inter> closed s = {} \<and> 0 < n then items (message_queue s)
               else take n (items (message_queue s)))"
proof (induction n)
  case 0
  then show ?case by simp
next
  case (Suc n)
  have "take n (items (message_queue s)) @ take 1 (drop n (items (message_queue s))) =
      take (Suc n) (items (message_queue s))"
    using take_add [of n 1 "items (message_queue s)"] by simp
  then have "map Json (take n (items (message_queue s))) @
      map Json (take 1 (drop n (items (message_queue s)))) =
      map Json (take (Suc n) (items (message_queue s)))"
    by (metis map_append)
  with Suc show ?case
    by (auto simp: broadcast_tick_inbox ticks_items)
qed

lemma rounds_items:
  "items (message_queue (run (replicate k Round) s)) = drop k (items (message_queue s))"
proof (induction k arbitrary: s)
  case 0
  then show ?case by simp
next
  case (Suc k)
  have "items (message_queue (step Round s)) = tl (items (message_queue s))"
    by (simp add: empty_q_def broadcast_one_items)
  then show ?case
    using Suc [of "step Round s"] by (simp del: step.simps add: drop_Suc)
qed

lemma enqueued_rounds [simp]: "enqueued (replicate k Round) = []"
  by (induction k) simp_all


lemma run_connected_clients_registry:
  "connected_clients s = connected_clients s' \<Longrightarrow>
   connected_clients (run evs s) = connected_clients (run (registry_events evs) s')"
proof (induction evs arbitrary: s s')
  case Nil
  then show ?case by (simp add: registry_events_def)
next
  case (Cons e evs)
  show ?case
  proof (cases "case e of Register w \<Rightarrow> True | Finally w \<Rightarrow> True | _ \<Rightarrow> False")
    case True
    then have "registry_events (e # evs) = e # registry_events evs"
      by (simp add: registry_events_def)
    moreover have "connected_clients (step e s) = connected_clients (step e s')"
      using Cons.prems
      by (cases e) (simp_all del: step.simps add: step_connected_clients)
    ultimately show ?thesis
      using Cons.IH [of "step e s" "step e s'"] by (simp del: step.simps)
  next
    case False
    then have "registry_events (e # evs) = registry_events evs"
      by (simp add: registry_events_def)
    moreover have "connected_clients (step e s) = connected_clients s'"
      using Cons.prems False
      by (cases e) (simp_all del: step.simps add: step_connected_clients)
    ultimately show ?thesis
      using Cons.IH [of "step e s" s'] by (simp del: step.simps)
  qed
qed

lemma run_Register_all:
  "connected_clients (run (map Register cs) s) = connected_clients s \<union> set cs"
  by (induction cs arbitrary: s) (auto simp: handler_register_def set_add_def)

lemma run_Finally_all:
  "connected_clients (run (map Finally ds) s) = connected_clients s - set ds"
proof (induction ds arbitrary: s)
  case Nil
  then show ?case by simp
next
  case (Cons d ds)
  have "connected_clients (step (Finally d) s) = connected_clients s - {d}"
    by (simp del: step.simps add: step_connected_clients)
  then show ?case
    using Cons [of "step (Finally d) s"] by (auto simp del: step.simps)
qed

lemma card_connects_disconnects:
  assumes "finite A" "distinct cs" "set cs \<inter> A = {}" "distinct ds" "set ds \<subseteq> set cs"
  shows "card ((A \<union> set cs) - set ds) = card A + length cs - length ds"
proof -
  have "card (A \<union> set cs) = card A + length cs"
    using assms(1-3) by (simp add: card_Un_disjoint distinct_card Int_commute)
  moreover have "card ((A \<union> set cs) - set ds) = card (A \<union> set cs) - card (set ds)"
    using assms(5) by (intro card_Diff_subset) auto
  ultimately show ?thesis
    using assms(4) by (simp add: distinct_card)
qed



section \<open>The claims\<close>

subsection \<open>C3: deregistration\<close>




subsection \<open>C4: putting a message on the queue\<close>

text \<open>
  C4. The queue built by \<^verbatim>\<open>__init__\<close> is unbounded and stays so in every state the
  system reaches; on an unbounded queue, whatever it holds, \<^verbatim>\<open>queue_message\<close> returns
  (it never waits for room and raises nothing) and the message is the new last item.
\<close>

theorem queue_message_appends:
  "maxsize (message_queue (run evs (ArmTracker_init :: 'm system))) = 0 \<and>
   (maxsize (message_queue s) = 0 \<longrightarrow>
      queue_message m s =
        Returns (s\<lparr>message_queue := (message_queue s)\<lparr>items := items (message_queue s) @ [m]\<rparr>\<rparr>))"
  by (simp add: queue_message_def put_def ArmTracker_init_def Queue_def)

theorem queue_message_appends_witness:
  "(case queue_message (7 :: nat) (run [Enqueue 5, Enqueue 6] ArmTracker_init) of
      Blocks \<Rightarrow> False
    | Returns s' \<Rightarrow> items (message_queue s') = [5, 6, 7])"
  using queue_message_appends
          [of "[Enqueue 5, Enqueue 6]" "run [Enqueue 5, Enqueue (6 :: nat)] ArmTracker_init" 7]
  by (simp add: queue_message_def put_def ArmTracker_init_def Queue_def)

subsection \<open>C1: a send that fails during a broadcast pass\<close>




subsection \<open>C5: draining the queue\<close>

text \<open>
  C5, as the code has it. A pass takes the messages off the head of the queue one at a
  time, in FIFO order. When no registered handle is closed it raises nothing, leaves the
  queue empty and has sent every registered handle all the queued messages in order.
  When a send fails, the pass stops there: the queue was the one message taken followed
  by what is left, still in order. Across any interleaving of puts and rounds, the
  messages taken off followed by the messages still queued are exactly the messages that
  were queued followed by the messages put: none is lost, none appears twice.
\<close>

theorem drain_fifo_until_failure:
  "(connected_clients s \<inter> closed s = {} \<longrightarrow>
      fst (broadcast_try s) = None \<and>
      items (message_queue (broadcast_tick s)) = [] \<and>
      (c \<in> connected_clients s \<longrightarrow>
         inbox (broadcast_tick s) c = inbox s c @ map Json (items (message_queue s)))) \<and>
   (connected_clients s \<inter> closed s \<noteq> {} \<longrightarrow>
      items (message_queue s) =
        take 1 (items (message_queue s)) @ items (message_queue (broadcast_tick s))) \<and>
   (maxsize (message_queue s) = 0 \<longrightarrow>
      drained evs s @ items (message_queue (run evs s)) =
        items (message_queue s) @ enqueued evs)"
  by (auto simp: broadcast_try_fst broadcast_tick_items broadcast_tick_inbox take1_tl
        drained_queue)

theorem drain_fifo_until_failure_witness:
  "items (message_queue (broadcast_tick
      (run [Register 1, Enqueue 10, Enqueue (11 :: nat)] ArmTracker_init))) = [] \<and>
   inbox (broadcast_tick
      (run [Register 1, Enqueue 10, Enqueue (11 :: nat)] ArmTracker_init)) 1 =
     [Json 10, Json 11] \<and>
   drained [Enqueue 10, Round, Enqueue 11, Enqueue 12, Round] (ArmTracker_init :: nat system) @
     items (message_queue
       (run [Enqueue 10, Round, Enqueue 11, Enqueue 12, Round] (ArmTracker_init :: nat system))) =
     [10, 11, 12]"
  using drain_fifo_until_failure
          [of "run [Register 1, Enqueue 10, Enqueue (11 :: nat)] ArmTracker_init" 1 "[]"]
        drain_fifo_until_failure
          [of "ArmTracker_init :: nat system" 1
              "[Enqueue 10, Round, Enqueue 11, Enqueue 12, Round]"]
  by (simp add: handler_register_def set_add_def queue_message_def put_def
        ArmTracker_init_def Queue_def)

text \<open>
  C5 as the specification states it (a drain removes all queued messages and leaves the
  queue empty but for later puts) fails: with the only client closed, a pass over the
  queue 10, 11 leaves 11 queued, and nothing was put meanwhile.
\<close>

theorem failed_tick_leaves_queue_nonempty:
  "items (message_queue (broadcast_tick
      (run [Register 1, Close 1, Enqueue 10, Enqueue (11 :: nat)] ArmTracker_init))) = [11]"
  by (simp add: broadcast_tick_items handler_register_def set_add_def queue_message_def
        put_def ArmTracker_init_def Queue_def)

subsection \<open>C10: what an aborted pass leaves behind\<close>

text \<open>
  C10. When the body of a pass raises, the queue before the pass was the one message in
  flight followed by the queue after the pass: the messages behind it are all still
  queued, in order. The following passes drain them: after as many further passes as
  messages were left the queue is empty, and every registered handle with an open
  connection has been sent all of them, in order.
\<close>

theorem failed_tick_keeps_rest_queued:
  "fst (broadcast_try s) = Some e \<longrightarrow>
     (\<exists>m. items (message_queue s) = m # items (message_queue (broadcast_tick s))) \<and>
     (length (items (message_queue (broadcast_tick s))) \<le> n \<longrightarrow>
        items (message_queue ((broadcast_tick ^^ n) (broadcast_tick s))) = [] \<and>
        (c \<in> connected_clients s \<and> c \<notin> closed s \<longrightarrow>
           inbox ((broadcast_tick ^^ n) (broadcast_tick s)) c =
             inbox (broadcast_tick s) c @
             map Json (items (message_queue (broadcast_tick s)))))"
  by (cases "items (message_queue s)")
     (auto simp: broadcast_try_fst broadcast_tick_items ticks_items ticks_inbox
        split: if_splits)

theorem failed_tick_keeps_rest_queued_witness:
  "items (message_queue (broadcast_tick
      (run [Register 1, Register 2, Close 2, Enqueue 10, Enqueue 11, Enqueue (12 :: nat)]
         ArmTracker_init))) = [11, 12] \<and>
   items (message_queue ((broadcast_tick ^^ 2) (broadcast_tick
      (run [Register 1, Register 2, Close 2, Enqueue 10, Enqueue 11, Enqueue (12 :: nat)]
         ArmTracker_init)))) = [] \<and>
   inbox ((broadcast_tick ^^ 2) (broadcast_tick
      (run [Register 1, Register 2, Close 2, Enqueue 10, Enqueue 11, Enqueue (12 :: nat)]
         ArmTracker_init))) 1 = [Json 10, Json 11, Json 12]"
  using failed_tick_keeps_rest_queued
          [of "run [Register 1, Register 2, Close 2, Enqueue 10, Enqueue 11,
                    Enqueue (12 :: nat)] ArmTracker_init" ConnectionClosed 2 1]
  by (simp add: broadcast_try_fst broadcast_tick_items broadcast_tick_inbox
        handler_register_def set_add_def queue_message_def put_def
        ArmTracker_init_def Queue_def)

subsection \<open>C6: order of delivery\<close>

text \<open>
  C6. Over any interleaving of events, the samples a client has been sent are, in the
  order sent, a subsequence of the messages queued at the start followed by the messages
  put since: a sample put before another is never sent to a client after it. For a client
  that is registered with an open connection and stays so throughout, the samples it has
  been sent followed by those still queued are exactly all of these messages in order; so
  once the broadcaster has run as many further rounds as messages are left in the queue,
  the client has been sent every one of them, once each, in the order they were put.
\<close>

theorem fifo_per_client:
  "maxsize (message_queue s) = 0 \<longrightarrow>
     (\<exists>ys. samples_of (inbox (run evs s) c) = samples_of (inbox s c) @ ys \<and>
           subseq ys (items (message_queue s) @ enqueued evs)) \<and>
     (c \<in> connected_clients s \<and> c \<notin> closed s \<and>
      Finally c \<notin> set evs \<and> Close c \<notin> set evs \<longrightarrow>
        samples_of (inbox (run evs s) c) @ items (message_queue (run evs s)) =
          samples_of (inbox s c) @ items (message_queue s) @ enqueued evs \<and>
        (length (items (message_queue (run evs s))) \<le> k \<longrightarrow>
           samples_of (inbox (run (evs @ replicate k Round) s) c) =
             samples_of (inbox s c) @ items (message_queue s) @ enqueued evs))"
proof (intro impI conjI)
  assume unbounded: "maxsize (message_queue s) = 0"
  obtain ys where ys: "samples_of (inbox (run evs s) c) = samples_of (inbox s c) @ ys"
      "subseq ys (drained evs s)"
    using run_samples_subseq by blast
  have "subseq ys (drained evs s @ items (message_queue (run evs s)))"
    using ys(2) by (rule list_emb_prefix)
  then have "subseq ys (items (message_queue s) @ enqueued evs)"
    using unbounded by (simp add: drained_queue)
  with ys(1) show "\<exists>ys. samples_of (inbox (run evs s) c) = samples_of (inbox s c) @ ys \<and>
      subseq ys (items (message_queue s) @ enqueued evs)"
    by blast
next
  assume unbounded: "maxsize (message_queue s) = 0"
    and c: "c \<in> connected_clients s \<and> c \<notin> closed s \<and>
      Finally c \<notin> set evs \<and> Close c \<notin> set evs"
  have "samples_of (inbox (run evs s) c) = samples_of (inbox s c) @ drained evs s"
    using c by (simp add: run_samples_connected)
  then show "samples_of (inbox (run evs s) c) @ items (message_queue (run evs s)) =
      samples_of (inbox s c) @ items (message_queue s) @ enqueued evs"
    using unbounded by (simp add: drained_queue)
next
  assume unbounded: "maxsize (message_queue s) = 0"
    and c: "c \<in> connected_clients s \<and> c \<notin> closed s \<and>
      Finally c \<notin> set evs \<and> Close c \<notin> set evs"
    and k: "length (items (message_queue (run evs s))) \<le> k"
  let ?evs = "evs @ replicate k Round"
  have "samples_of (inbox (run ?evs s) c) = samples_of (inbox s c) @ drained ?evs s"
    using c by (intro run_samples_connected) auto
  moreover have "items (message_queue (run ?evs s)) = []"
    using k by (simp add: run_append rounds_items)
  moreover have "drained ?evs s @ items (message_queue (run ?evs s)) =
      items (message_queue s) @ enqueued ?evs"
    using unbounded by (rule drained_queue)
  ultimately show "samples_of (inbox (run ?evs s) c) =
      samples_of (inbox s c) @ items (message_queue s) @ enqueued evs"
    by simp
qed

theorem fifo_per_client_witness:
  "samples_of (inbox (run ([Welcome 1, Enqueue 10, Round, Enqueue 11, Enqueue 12] @
        replicate 2 Round) (handler_register 1 (ArmTracker_init :: nat system))) 1) =
     [10, 11, 12]"
  using fifo_per_client
          [of "handler_register 1 (ArmTracker_init :: nat system)"
              "[Welcome 1, Enqueue 10, Round, Enqueue 11, Enqueue 12]" 1 2]
  by (simp add: handler_register_def set_add_def handler_welcome_def send_def
        queue_message_def put_def ArmTracker_init_def Queue_def empty_q_def
        broadcast_one_def get_nowait_def gather_send_def Let_def)

subsection \<open>C7: no replay\<close>

text \<open>
  C7. A client that is not registered is sent no sample, whatever is taken off the queue
  meanwhile. Once it registers, the samples it is sent are a subsequence of the messages
  the broadcaster takes off the queue after the registration, hence of the messages still
  queued at the registration followed by the messages put later: a sample taken off the
  queue before the client registered is never sent to it.
\<close>

theorem no_replay:
  "c \<notin> connected_clients s \<and> Register c \<notin> set evs1 \<longrightarrow>
     samples_of (inbox (run evs1 s) c) = samples_of (inbox s c) \<and>
     (\<exists>ys. samples_of (inbox (run (evs1 @ Register c # evs2) s) c) =
             samples_of (inbox s c) @ ys \<and>
           subseq ys (drained evs2 (run (evs1 @ [Register c]) s)) \<and>
           (maxsize (message_queue s) = 0 \<longrightarrow>
              subseq ys (items (message_queue (run evs1 s)) @ enqueued evs2)))"
proof (intro impI conjI)
  assume c: "c \<notin> connected_clients s \<and> Register c \<notin> set evs1"
  then show before: "samples_of (inbox (run evs1 s) c) = samples_of (inbox s c)"
    by (simp add: run_samples_unregistered)
  let ?s2 = "run (evs1 @ [Register c]) s"
  have s2: "?s2 = handler_register c (run evs1 s)"
    by (simp add: run_append)
  have run: "run (evs1 @ Register c # evs2) s = run evs2 ?s2"
    by (simp add: run_append)
  obtain ys where ys: "samples_of (inbox (run evs2 ?s2) c) = samples_of (inbox ?s2 c) @ ys"
      "subseq ys (drained evs2 ?s2)"
    using run_samples_subseq by blast
  have "samples_of (inbox ?s2 c) = samples_of (inbox s c)"
    using before by (simp add: s2 handler_register_def)
  then have 1: "samples_of (inbox (run (evs1 @ Register c # evs2) s) c) =
      samples_of (inbox s c) @ ys"
    using ys(1) run by simp
  have 2: "subseq ys (items (message_queue (run evs1 s)) @ enqueued evs2)"
    if unbounded: "maxsize (message_queue s) = 0"
  proof -
    have "maxsize (message_queue ?s2) = 0"
      using unbounded by simp
    then have "drained evs2 ?s2 @ items (message_queue (run evs2 ?s2)) =
        items (message_queue ?s2) @ enqueued evs2"
      by (rule drained_queue)
    moreover have "items (message_queue ?s2) = items (message_queue (run evs1 s))"
      by (simp add: s2 handler_register_def)
    moreover have "subseq ys (drained evs2 ?s2 @ items (message_queue (run evs2 ?s2)))"
      using ys(2) by (rule list_emb_prefix)
    ultimately show ?thesis by simp
  qed
  from 1 ys(2) 2 show "\<exists>ys. samples_of (inbox (run (evs1 @ Register c # evs2) s) c) =
             samples_of (inbox s c) @ ys \<and>
           subseq ys (drained evs2 (run (evs1 @ [Register c]) s)) \<and>
           (maxsize (message_queue s) = 0 \<longrightarrow>
              subseq ys (items (message_queue (run evs1 s)) @ enqueued evs2))"
    by blast
qed

theorem no_replay_witness:
  "samples_of (inbox (run ([Register 1, Enqueue 10, Round] @ Register 2 #
        [Enqueue 11, Round]) (ArmTracker_init :: nat system)) 2) = [11] \<and>
   samples_of (inbox (run ([Register 1, Enqueue 10, Round] @ Register 2 #
        [Enqueue 11, Round]) (ArmTracker_init :: nat system)) 1) = [10, 11]"
  using no_replay
          [of 2 "ArmTracker_init :: nat system" "[Register 1, Enqueue 10, Round]"
              "[Enqueue 11, Round]"]
  by (simp add: handler_register_def set_add_def
        queue_message_def put_def ArmTracker_init_def Queue_def empty_q_def
        broadcast_one_def get_nowait_def gather_send_def Let_def)

subsection \<open>C8: the number of connected clients\<close>

text \<open>
  C8. The count shown is the cardinality of the set of registered handles. Registering a
  handle that is not in the set adds one; the \<^verbatim>\<open>finally\<close> clause of a registered handle
  removes one. So after K handlers have registered their (distinct, new) handles and M of
  them have then run their \<^verbatim>\<open>finally\<close> clause, the count has grown by K - M, whatever
  rounds of the broadcaster, puts, welcome sends and closings are interleaved.
\<close>

theorem client_count_connects_disconnects:
  "finite (connected_clients s) \<longrightarrow>
     client_count s = card (connected_clients s) \<and>
     (w \<notin> connected_clients s \<longrightarrow>
        client_count (handler_register w s) = client_count s + 1) \<and>
     (w \<in> connected_clients s \<longrightarrow>
        (\<exists>s'. handler_finally w s = Inr s' \<and> client_count s' = client_count s - 1)) \<and>
     (distinct cs \<and> set cs \<inter> connected_clients s = {} \<and> distinct ds \<and>
      set ds \<subseteq> set cs \<and> registry_events evs = map Register cs @ map Finally ds \<longrightarrow>
        client_count (run evs s) = client_count s + length cs - length ds)"
proof (intro impI conjI)
  show "client_count s = card (connected_clients s)"
    by (simp add: client_count_def)
next
  assume "finite (connected_clients s)" "w \<notin> connected_clients s"
  then show "client_count (handler_register w s) = client_count s + 1"
    by (simp add: client_count_def handler_register_def set_add_def)
next
  assume "finite (connected_clients s)" "w \<in> connected_clients s"
  then show "\<exists>s'. handler_finally w s = Inr s' \<and> client_count s' = client_count s - 1"
    by (simp add: client_count_def handler_finally_def set_remove_def)
next
  assume fin: "finite (connected_clients s)"
    and a: "distinct cs \<and> set cs \<inter> connected_clients s = {} \<and> distinct ds \<and>
      set ds \<subseteq> set cs \<and> registry_events evs = map Register cs @ map Finally ds"
  have "connected_clients (run evs s) =
      connected_clients (run (map Register cs @ map Finally ds) s)"
    using a run_connected_clients_registry [of s s evs] by simp
  also have "\<dots> = (connected_clients s \<union> set cs) - set ds"
    by (simp add: run_append run_Finally_all run_Register_all)
  finally show "client_count (run evs s) = client_count s + length cs - length ds"
    using fin a by (simp add: client_count_def card_connects_disconnects)
qed

theorem client_count_connects_disconnects_witness:
  "client_count (run [Register 1, Welcome 1, Enqueue 10, Register 2, Round, Register 3,
       Close 2, Enqueue 11, Round, Finally 2, Round, Finally 1]
       (ArmTracker_init :: nat system)) = 1"
  using client_count_connects_disconnects
          [of "ArmTracker_init :: nat system" 1 "[1, 2, 3]" "[2, 1]"
              "[Register 1, Welcome 1, Enqueue 10, Register 2, Round, Register 3,
                Close 2, Enqueue 11, Round, Finally 2, Round, Finally 1]"]
  by (simp add: registry_events_def ArmTracker_init_def client_count_def)

subsection \<open>C2: the welcome message\<close>




subsection \<open>C9: the arm data\<close>



end
